theory Spec2Isabelle
  imports Main "HOL-Library.Multiset" "HOL-Library.Product_Lexorder"
begin

section \<open>The allocator of \<^verbatim>\<open>memory_allocator.py\<close>\<close>

subsection \<open>Data\<close>

text \<open>
  A block is the Python tuple \<^verbatim>\<open>(start, size)\<close> of two unbounded integers. The allocator
  object has three fields: \<^verbatim>\<open>buffer\<close> (a list of \<^verbatim>\<open>None\<close>, never written after
  construction), \<^verbatim>\<open>allocations\<close> and \<^verbatim>\<open>free_blocks\<close> (lists of blocks, in list order).
\<close>

type_synonym block = "int \<times> int"

record allocator =
  buffer :: "unit list"
  allocations :: "block list"
  free_blocks :: "block list"

text \<open>
  The exceptions a call can raise: the class and the message. \<^verbatim>\<open>allocate\<close> raises
  \<^verbatim>\<open>ValueError("Size must be greater than 0")\<close>,
  \<^verbatim>\<open>MemoryError("Requested size exceeds buffer capacity")\<close> and
  \<^verbatim>\<open>MemoryError("Out of memory")\<close>; \<^verbatim>\<open>free\<close> raises \<^verbatim>\<open>ValueError("Invalid pointer")\<close>.
  The source of the constructor holds no \<^verbatim>\<open>raise\<close>, but the list repetition in it raises
  \<^verbatim>\<open>OverflowError\<close> for a count outside the index-sized integers and \<^verbatim>\<open>MemoryError()\<close>
  (no message) for a list too long to build.
\<close>

datatype error = ValueError string | MemoryError string | OverflowError string

definition InvalidSizeError :: error where
  "InvalidSizeError = ValueError ''Size must be greater than 0''"

definition CapacityExceededError :: error where
  "CapacityExceededError = MemoryError ''Requested size exceeds buffer capacity''"

definition OutOfMemoryError :: error where
  "OutOfMemoryError = MemoryError ''Out of memory''"

definition InvalidPointerError :: error where
  "InvalidPointerError = ValueError ''Invalid pointer''"

subsection \<open>Construction\<close>

text \<open>
  The body of \<^verbatim>\<open>__init__\<close> once \<^verbatim>\<open>[None] * buffer_size\<close> has been built: that list is
  empty when \<^verbatim>\<open>buffer_size\<close> is zero or negative, which \<open>nat\<close> gives as well; the free
  list is \<^verbatim>\<open>[(0, buffer_size)]\<close> with the argument as it was passed.
\<close>

definition init :: "int \<Rightarrow> allocator" where
  "init n = \<lparr>buffer = replicate (nat n) (), allocations = [], free_blocks = [(0, n)]\<rparr>"

text \<open>
  What the interpreter that runs the constructor can build, which the source does not fix:
  \<^verbatim>\<open>sys.maxsize\<close>, the largest index-sized integer (the least is \<open>- maxsize - 1\<close>), and
  the length of the longest list its memory holds at the time of the call.
\<close>

record platform =
  maxsize :: nat
  list_limit :: nat

text \<open>
  The constructor call \<^verbatim>\<open>FixedBufferAllocator(buffer_size)\<close> as a fallible operation.
  \<^verbatim>\<open>__init__\<close> checks nothing itself; \<^verbatim>\<open>[None] * buffer_size\<close> first converts the count
  to an index-sized integer (\<^verbatim>\<open>OverflowError\<close> when it does not fit), gives the empty list
  for a count of zero or less, and raises \<^verbatim>\<open>MemoryError()\<close> when the list is too long
  to build.
\<close>

definition FixedBufferAllocator :: "platform \<Rightarrow> int \<Rightarrow> error + allocator" where
  "FixedBufferAllocator p n =
     (if n < - int (maxsize p) - 1 \<or> int (maxsize p) < n then
        Inl (OverflowError ''cannot fit 'int' into an index-sized integer'')
      else if n \<le> 0 then Inr (init n)
      else if int (list_limit p) < n then Inl (MemoryError [])
      else Inr (init n))"

text \<open>The property \<^verbatim>\<open>buffer_size\<close>: \<^verbatim>\<open>len(self.buffer)\<close>.\<close>

definition buffer_size :: "allocator \<Rightarrow> int" where
  "buffer_size a = int (length (buffer a))"

subsection \<open>allocate\<close>

text \<open>\<^verbatim>\<open>list.pop(i)\<close> for an index in range.\<close>

definition pop :: "'a list \<Rightarrow> nat \<Rightarrow> 'a list" where
  "pop xs i = take i xs @ drop (Suc i) xs"

text \<open>
  The \<^verbatim>\<open>while left <= right\<close> loop of \<^verbatim>\<open>allocate\<close>, from the values of \<^verbatim>\<open>left\<close> and
  \<^verbatim>\<open>right\<close> at the loop head. \<open>Some mid\<close> is the \<^verbatim>\<open>break\<close>, \<open>None\<close> the loop's
  \<^verbatim>\<open>else\<close> branch (the condition became false). \<^verbatim>\<open>//\<close> is floor division, as \<open>div\<close> is
  on \<open>int\<close>. Started at \<open>0\<close> and \<open>len - 1\<close> the loop only raises \<open>left\<close> and lowers
  \<open>right\<close>, and \<open>left \<le> mid \<le> right\<close> where \<open>mid\<close> is computed, so \<open>mid\<close> is an index in
  range at each read; \<open>mid - 1\<close> is read only when \<open>mid\<close> is not zero.
\<close>

function search :: "block list \<Rightarrow> int \<Rightarrow> int \<Rightarrow> int \<Rightarrow> int option" where
  "search fb sz left right =
     (if left \<le> right then
        let mid = (left + right) div 2;
            block_size = snd (fb ! nat mid)
        in if block_size \<ge> sz then
             if mid = 0 \<or> snd (fb ! nat (mid - 1)) < sz then Some mid
             else search fb sz left (mid - 1)
           else search fb sz (mid + 1) right
      else None)"
  by pat_completeness auto
termination
  by (relation "measure (\<lambda>(fb, sz, left, right). nat (right - left + 1))") auto

declare search.simps [simp del]

text \<open>
  \<^verbatim>\<open>allocate(size)\<close>. The result pairs what the call returns or raises with the object's
  state afterwards; every \<^verbatim>\<open>raise\<close> stands before the first mutation, so the state of an
  error result is the one the call started from.
\<close>

definition allocate :: "int \<Rightarrow> allocator \<Rightarrow> (error + int) \<times> allocator" where
  "allocate sz a =
     (if sz \<le> 0 then (Inl (ValueError ''Size must be greater than 0''), a)
      else if sz > buffer_size a then
        (Inl (MemoryError ''Requested size exceeds buffer capacity''), a)
      else
        (case search (free_blocks a) sz 0 (int (length (free_blocks a)) - 1) of
           None \<Rightarrow> (Inl (MemoryError ''Out of memory''), a)
         | Some mid \<Rightarrow>
             let start = fst (free_blocks a ! nat mid);
                 block_size = snd (free_blocks a ! nat mid);
                 fb = (if block_size = sz then pop (free_blocks a) (nat mid)
                       else (free_blocks a)[nat mid := (start + sz, block_size - sz)])
             in (Inr start,
                 a\<lparr>free_blocks := fb, allocations := allocations a @ [(start, sz)]\<rparr>)))"

subsection \<open>defragment\<close>

text \<open>
  The \<^verbatim>\<open>while i < len(self.free_blocks) - 1\<close> loop of \<^verbatim>\<open>defragment\<close>, from the value of
  \<^verbatim>\<open>i\<close> at the loop head; the list is the one the loop mutates.
\<close>

function defragment_loop :: "nat \<Rightarrow> block list \<Rightarrow> block list" where
  "defragment_loop i fb =
     (if int i < int (length fb) - 1 then
        let current = fb ! i; next_block = fb ! (i + 1)
        in if fst current + snd current = fst next_block then
             defragment_loop i
               (pop (fb[i := (fst current, snd current + snd next_block)]) (i + 1))
           else defragment_loop (i + 1) fb
      else fb)"
  by pat_completeness auto
termination
  by (relation "measure (\<lambda>(i, fb). length fb - i)") (auto simp: pop_def)

declare defragment_loop.simps [simp del]

text \<open>
  \<^verbatim>\<open>defragment()\<close>: \<^verbatim>\<open>list.sort()\<close> orders the tuples lexicographically (the order of
  \<open>Product_Lexorder\<close>), then the loop runs from \<^verbatim>\<open>i = 0\<close>.
\<close>

definition defragment :: "allocator \<Rightarrow> allocator" where
  "defragment a = a\<lparr>free_blocks := defragment_loop 0 (sort (free_blocks a))\<rparr>"

definition defragment_if_needed :: "allocator \<Rightarrow> allocator" where
  "defragment_if_needed a =
     (if length (free_blocks a) > length (allocations a) * 2 then defragment a else a)"

subsection \<open>free\<close>

text \<open>
  The \<^verbatim>\<open>for i, (start, size) in enumerate(self.allocations)\<close> loop of \<^verbatim>\<open>free\<close>: the index of
  the first allocation whose start is \<^verbatim>\<open>ptr\<close>, or \<open>None\<close> when the loop runs to its end.
\<close>

fun find_start :: "int \<Rightarrow> block list \<Rightarrow> nat option" where
  "find_start ptr [] = None"
| "find_start ptr (b # rest) =
     (if fst b = ptr then Some 0 else map_option Suc (find_start ptr rest))"

definition free :: "int \<Rightarrow> allocator \<Rightarrow> (error + unit) \<times> allocator" where
  "free ptr a =
     (if \<not> (0 \<le> ptr \<and> ptr < int (length (buffer a))) then
        (Inl (ValueError ''Invalid pointer''), a)
      else
        (case find_start ptr (allocations a) of
           None \<Rightarrow> (Inl (ValueError ''Invalid pointer''), a)
         | Some i \<Rightarrow>
             let sz = snd (allocations a ! i);
                 a1 = a\<lparr>allocations := pop (allocations a) i\<rparr>;
                 a2 = a1\<lparr>free_blocks := free_blocks a1 @ [(ptr, sz)]\<rparr>
             in (Inr (), defragment_if_needed a2)))"

subsection \<open>Sequences of calls\<close>

text \<open>
  A caller's sequence of calls on one object. A call that raises leaves the caller with
  the object as the call left it, which is the state component of the result.
\<close>

datatype call = Allocate int | Free int | Defragment

fun step :: "call \<Rightarrow> allocator \<Rightarrow> allocator" where
  "step (Allocate sz) a = snd (allocate sz a)"
| "step (Free ptr) a = snd (free ptr a)"
| "step Defragment a = defragment a"

fun run :: "call list \<Rightarrow> allocator \<Rightarrow> allocator" where
  "run [] a = a"
| "run (c # cs) a = run cs (step c a)"

subsection \<open>What the properties are stated with\<close>

text \<open>The index range \<open>[start, start + size)\<close> of a block.\<close>

definition range_of :: "block \<Rightarrow> int set" where
  "range_of b = {fst b ..< fst b + snd b}"

text \<open>Every block the object holds: the allocations, then the free blocks.\<close>

definition blocks :: "allocator \<Rightarrow> block list" where
  "blocks a = allocations a @ free_blocks a"

text \<open>
  The layout invariant: blocks at different list positions have disjoint ranges, the ranges
  together are \<open>[0, buffer_size)\<close>, every stored size is at least one, and no two
  allocations start at the same index.
\<close>

definition well_formed :: "allocator \<Rightarrow> bool" where
  "well_formed a =
     ((\<forall>i<length (blocks a). \<forall>j<length (blocks a).
         i \<noteq> j \<longrightarrow> range_of (blocks a ! i) \<inter> range_of (blocks a ! j) = {}) \<and>
      (\<Union>b\<in>set (blocks a). range_of b) = {0..<buffer_size a} \<and>
      (\<forall>b\<in>set (blocks a). 1 \<le> snd b) \<and>
      distinct (map fst (allocations a)))"

text \<open>
  The same layout by counting: \<open>covers bs p\<close> is the number of blocks of \<open>bs\<close> whose
  range holds the index \<open>p\<close>; in a good layout it is one inside the buffer and zero
  outside.
\<close>

definition covers :: "block list \<Rightarrow> int \<Rightarrow> nat" where
  "covers bs p = length (filter (\<lambda>b. p \<in> range_of b) bs)"

definition layout :: "allocator \<Rightarrow> bool" where
  "layout a =
     ((\<forall>b\<in>set (blocks a). 1 \<le> snd b) \<and>
      (\<forall>p. covers (blocks a) p = (if 0 \<le> p \<and> p < buffer_size a then 1 else 0)))"

text \<open>
  The merging loop as a recursion on the list: \<open>coalesce c rest\<close> is what the loop makes of
  \<open>c # rest\<close> when \<^verbatim>\<open>i\<close> points at \<open>c\<close>.
\<close>

fun coalesce :: "block \<Rightarrow> block list \<Rightarrow> block list" where
  "coalesce c [] = [c]"
| "coalesce c (n # rest) =
     (if fst c + snd c = fst n then coalesce (fst c, snd c + snd n) rest
      else c # coalesce n rest)"

text \<open>No free block ends where another free block starts.\<close>

definition no_adjacent :: "block list \<Rightarrow> bool" where
  "no_adjacent fb =
     (\<forall>i<length fb. \<forall>j<length fb. i \<noteq> j \<longrightarrow> fst (fb ! i) + snd (fb ! i) \<noteq> fst (fb ! j))"

text \<open>
  Block \<open>a\<close> lies wholly before block \<open>b\<close>, and strictly so (with a gap between them).
\<close>

definition before :: "block \<Rightarrow> block \<Rightarrow> bool" where
  "before a b = (fst a + snd a \<le> fst b)"

definition apart :: "block \<Rightarrow> block \<Rightarrow> bool" where
  "apart a b = (fst a + snd a < fst b)"

section \<open>Properties\<close>

subsection \<open>The search\<close>

lemma search_Some:
  "search fb sz left right = Some mid \<Longrightarrow>
     left \<le> mid \<and> mid \<le> right \<and> sz \<le> snd (fb ! nat mid)"
proof (induction fb sz left right rule: search.induct)
  case (1 fb sz left right)
  from "1.prems" have le: "left \<le> right"
    by (subst (asm) search.simps) (simp split: if_splits)
  define m where "m = (left + right) div 2"
  have m: "left \<le> m" "m \<le> right" using le by (auto simp: m_def)
  show ?case
  proof (cases "sz \<le> snd (fb ! nat m)")
    case False
    with le "1.prems" have "search fb sz (m + 1) right = Some mid"
      by (subst (asm) search.simps) (simp add: m_def Let_def)
    with "1.IH"(2) [of m "snd (fb ! nat m)"] le False m show ?thesis
      by (auto simp: m_def)
  next
    case ge: True
    show ?thesis
    proof (cases "m = 0 \<or> snd (fb ! nat (m - 1)) < sz")
      case True
      with le ge "1.prems" have "mid = m"
        by (subst (asm) search.simps) (auto simp: m_def Let_def)
      with ge m show ?thesis by simp
    next
      case False
      with le ge "1.prems" have "search fb sz left (m - 1) = Some mid"
        by (subst (asm) search.simps) (auto simp: m_def Let_def)
      with "1.IH"(1) [of m "snd (fb ! nat m)"] le ge False m show ?thesis
        by (auto simp: m_def)
    qed
  qed
qed

subsection \<open>Counting the blocks over an index\<close>

lemma covers_Nil [simp]: "covers [] p = 0"
  by (simp add: covers_def)

lemma covers_Cons: "covers (b # bs) p = (if p \<in> range_of b then 1 else 0) + covers bs p"
  by (simp add: covers_def)

lemma covers_append: "covers (xs @ ys) p = covers xs p + covers ys p"
  by (simp add: covers_def)

lemma covers_mset: "mset xs = mset ys \<Longrightarrow> covers xs p = covers ys p"
proof -
  assume "mset xs = mset ys"
  then have "mset (filter (\<lambda>b. p \<in> range_of b) xs) = mset (filter (\<lambda>b. p \<in> range_of b) ys)"
    by simp
  then show ?thesis unfolding covers_def by (rule mset_eq_length)
qed

lemma covers_pop:
  "i < length xs \<Longrightarrow> covers (pop xs i) p + covers [xs ! i] p = covers xs p"
proof -
  assume "i < length xs"
  then have "xs = take i xs @ xs ! i # drop (Suc i) xs" by (rule id_take_nth_drop)
  then have "covers xs p = covers (take i xs @ xs ! i # drop (Suc i) xs) p" by simp
  then show ?thesis by (simp add: pop_def covers_append covers_Cons)
qed

lemma covers_update:
  "i < length xs \<Longrightarrow> covers (xs[i := y]) p + covers [xs ! i] p = covers xs p + covers [y] p"
proof -
  assume i: "i < length xs"
  then have "xs = take i xs @ xs ! i # drop (Suc i) xs" by (rule id_take_nth_drop)
  then have "covers xs p = covers (take i xs @ xs ! i # drop (Suc i) xs) p" by simp
  moreover from i have "xs[i := y] = take i xs @ y # drop (Suc i) xs"
    by (rule upd_conv_take_nth_drop)
  ultimately show ?thesis by (simp add: covers_append covers_Cons)
qed

lemma covers_split:
  "0 \<le> n \<Longrightarrow> 0 \<le> m \<Longrightarrow> covers [(s, n)] p + covers [(s + n, m)] p = covers [(s, n + m)] p"
  by (auto simp: covers_Cons range_of_def)

lemma covers_pos: "0 < covers bs p \<longleftrightarrow> (\<exists>b\<in>set bs. p \<in> range_of b)"
  by (auto simp: covers_def filter_empty_conv)

lemma covers_two:
  assumes "i < length bs" "j < length bs" "i < j" "p \<in> range_of (bs ! i)" "p \<in> range_of (bs ! j)"
  shows "2 \<le> covers bs p"
proof -
  from assms(2) have "bs = take j bs @ bs ! j # drop (Suc j) bs" by (rule id_take_nth_drop)
  then have "covers bs p = covers (take j bs) p + covers [bs ! j] p + covers (drop (Suc j) bs) p"
    by (metis covers_append append_Cons append_Nil add.assoc)
  moreover have "bs ! i \<in> set (take j bs)"
    using assms(1,2,3) by (metis in_set_conv_nth length_take min_less_iff_conj nth_take)
  with assms(4) have "0 < covers (take j bs) p" by (auto simp: covers_pos)
  moreover from assms(5) have "covers [bs ! j] p = 1" by (simp add: covers_Cons)
  ultimately show ?thesis by simp
qed

subsection \<open>The merging loop as a recursion on the list\<close>

lemma defragment_loop_coalesce:
  "i < length fb \<Longrightarrow> defragment_loop i fb = take i fb @ coalesce (fb ! i) (drop (Suc i) fb)"
proof (induction i fb rule: defragment_loop.induct)
  case (1 i fb)
  show ?case
  proof (cases "Suc i < length fb")
    case False
    with "1.prems" have "drop (Suc i) fb = []" "take i fb @ [fb ! i] = fb"
      by (auto simp: take_Suc_conv_app_nth [symmetric])
    with False show ?thesis by (subst defragment_loop.simps) simp
  next
    case True
    then have cond: "int i < int (length fb) - 1" by simp
    have dr: "drop (Suc i) fb = fb ! Suc i # drop (Suc (Suc i)) fb"
      using True by (simp add: Cons_nth_drop_Suc)
    show ?thesis
    proof (cases "fst (fb ! i) + snd (fb ! i) = fst (fb ! (i + 1))")
      case adj: True
      define m where "m = (fst (fb ! i), snd (fb ! i) + snd (fb ! (i + 1)))"
      define fb' where "fb' = pop (fb[i := m]) (i + 1)"
      have fb': "fb' = take i fb @ m # drop (Suc (Suc i)) fb"
        using True by (simp add: fb'_def pop_def take_Suc_conv_app_nth)
      have len: "i < length fb'" using True by (simp add: fb')
      have "defragment_loop i fb = defragment_loop i fb'"
        using cond adj by (subst defragment_loop.simps) (simp add: Let_def fb'_def m_def)
      also have "\<dots> = take i fb' @ coalesce (fb' ! i) (drop (Suc i) fb')"
        using "1.IH"(1) [OF cond refl refl adj] len by (simp add: fb'_def m_def)
      also have "\<dots> = take i fb @ coalesce m (drop (Suc (Suc i)) fb)"
        using True by (simp add: fb' nth_append)
      also have "\<dots> = take i fb @ coalesce (fb ! i) (drop (Suc i) fb)"
        using adj by (simp add: dr m_def)
      finally show ?thesis .
    next
      case nadj: False
      have "defragment_loop i fb = defragment_loop (i + 1) fb"
        using cond nadj by (subst defragment_loop.simps) (simp add: Let_def)
      also have "\<dots> = take (i + 1) fb @ coalesce (fb ! (i + 1)) (drop (Suc (i + 1)) fb)"
        using "1.IH"(2) [OF cond refl refl nadj] True by simp
      also have "\<dots> = take i fb @ coalesce (fb ! i) (drop (Suc i) fb)"
        using nadj True "1.prems" by (simp add: dr take_Suc_conv_app_nth)
      finally show ?thesis .
    qed
  qed
qed

lemma defragment_loop_0:
  "defragment_loop 0 fb = (case fb of [] \<Rightarrow> [] | c # rest \<Rightarrow> coalesce c rest)"
proof (cases fb)
  case Nil
  then show ?thesis by (subst defragment_loop.simps) simp
next
  case (Cons c rest)
  then show ?thesis using defragment_loop_coalesce [of 0 fb] by simp
qed

subsection \<open>What a call returns and what it changes\<close>

lemma allocate_Inr:
  assumes "allocate sz a = (Inr start, a')"
  shows "\<exists>mid block_size. mid < length (free_blocks a) \<and>
           free_blocks a ! mid = (start, block_size) \<and> 0 < sz \<and> sz \<le> block_size \<and>
           sz \<le> buffer_size a \<and>
           a' = a\<lparr>free_blocks :=
                    (if block_size = sz then pop (free_blocks a) mid
                     else (free_blocks a)[mid := (start + sz, block_size - sz)]),
                  allocations := allocations a @ [(start, sz)]\<rparr>"
proof -
  from assms have sz: "0 < sz" "sz \<le> buffer_size a"
    by (auto simp: allocate_def split: if_splits)
  with assms obtain m where
    m: "search (free_blocks a) sz 0 (int (length (free_blocks a)) - 1) = Some m"
    by (auto simp: allocate_def split: option.splits)
  from search_Some [OF m] have r: "0 \<le> m" "m \<le> int (length (free_blocks a)) - 1"
    "sz \<le> snd (free_blocks a ! nat m)" by auto
  then have lt: "nat m < length (free_blocks a)" by auto
  from assms sz m have st: "start = fst (free_blocks a ! nat m)"
    by (simp add: allocate_def Let_def)
  from assms sz m have a': "a' = a\<lparr>free_blocks :=
       (if snd (free_blocks a ! nat m) = sz then pop (free_blocks a) (nat m)
        else (free_blocks a)[nat m := (start + sz, snd (free_blocks a ! nat m) - sz)]),
       allocations := allocations a @ [(start, sz)]\<rparr>"
    by (auto simp: allocate_def Let_def)
  show ?thesis
    apply (rule exI [of _ "nat m"], rule exI [of _ "snd (free_blocks a ! nat m)"])
    using lt st sz r(3) a' by simp
qed

lemma allocate_Inl: "fst (allocate sz a) = Inl e \<Longrightarrow> snd (allocate sz a) = a"
  by (auto simp: allocate_def Let_def split: option.splits if_splits)

lemma free_Inl: "fst (free ptr a) = Inl e \<Longrightarrow> snd (free ptr a) = a"
  by (auto simp: free_def Let_def split: option.splits if_splits)

lemma find_start_Some:
  "find_start ptr xs = Some i \<Longrightarrow>
     i < length xs \<and> fst (xs ! i) = ptr \<and> (\<forall>j<i. fst (xs ! j) \<noteq> ptr)"
proof (induction xs arbitrary: i)
  case Nil
  then show ?case by simp
next
  case (Cons b xs)
  show ?case
  proof (cases "fst b = ptr")
    case True
    with Cons.prems show ?thesis by simp
  next
    case False
    with Cons.prems obtain k where k: "find_start ptr xs = Some k" "i = Suc k" by auto
    from Cons.IH [OF k(1)] False k(2) show ?thesis
      by (auto simp: less_Suc_eq_0_disj)
  qed
qed

lemma find_start_None: "find_start ptr xs = None \<longleftrightarrow> ptr \<notin> fst ` set xs"
  by (induction xs) auto

lemma free_Inr:
  assumes "free ptr a = (Inr u, a')"
  shows "\<exists>i sz. i < length (allocations a) \<and> allocations a ! i = (ptr, sz) \<and>
           (\<forall>j<i. fst (allocations a ! j) \<noteq> ptr) \<and>
           0 \<le> ptr \<and> ptr < buffer_size a \<and>
           a' = defragment_if_needed
                  (a\<lparr>allocations := pop (allocations a) i,
                     free_blocks := free_blocks a @ [(ptr, sz)]\<rparr>)"
proof -
  from assms have p: "0 \<le> ptr" "ptr < buffer_size a"
    by (auto simp: free_def buffer_size_def split: if_splits)
  with assms obtain i where i: "find_start ptr (allocations a) = Some i"
    by (auto simp: free_def buffer_size_def split: option.splits)
  note f = find_start_Some [OF i]
  from assms p i have "a' = defragment_if_needed
      (a\<lparr>allocations := pop (allocations a) i,
         free_blocks := free_blocks a @ [(ptr, snd (allocations a ! i))]\<rparr>)"
    by (simp add: free_def buffer_size_def Let_def)
  with f p show ?thesis
    by (intro exI [of _ i] exI [of _ "snd (allocations a ! i)"]) (auto simp: prod_eq_iff)
qed

lemma buffer_defragment [simp]: "buffer (defragment a) = buffer a"
  by (simp add: defragment_def)

lemma allocations_defragment [simp]: "allocations (defragment a) = allocations a"
  by (simp add: defragment_def)

lemma buffer_defragment_if_needed [simp]: "buffer (defragment_if_needed a) = buffer a"
  by (simp add: defragment_if_needed_def)

lemma allocations_defragment_if_needed [simp]:
  "allocations (defragment_if_needed a) = allocations a"
  by (simp add: defragment_if_needed_def)

lemma buffer_allocate [simp]: "buffer (snd (allocate sz a)) = buffer a"
  by (auto simp: allocate_def Let_def split: option.splits)

lemma buffer_free [simp]: "buffer (snd (free ptr a)) = buffer a"
  by (auto simp: free_def Let_def split: option.splits)

lemma buffer_step [simp]: "buffer (step c a) = buffer a"
  by (cases c) simp_all

lemma buffer_run [simp]: "buffer (run cs a) = buffer a"
  by (induction cs arbitrary: a) simp_all

lemma buffer_size_run: "buffer_size (run cs (init n)) = max 0 n"
  by (simp add: buffer_size_def init_def)

subsection \<open>Every call keeps the layout\<close>

lemma layout_init: "0 < n \<Longrightarrow> layout (init n)"
  by (auto simp: layout_def blocks_def init_def buffer_size_def covers_Cons range_of_def)

lemma covers_coalesce:
  "\<forall>b\<in>set (c # xs). 0 \<le> snd b \<Longrightarrow> covers (coalesce c xs) p = covers (c # xs) p"
proof (induction xs arbitrary: c)
  case Nil
  then show ?case by simp
next
  case (Cons n rest)
  show ?case
  proof (cases "fst c + snd c = fst n")
    case True
    from Cons.prems have nn: "0 \<le> snd c" "0 \<le> snd n" by auto
    have "covers (coalesce c (n # rest)) p = covers ((fst c, snd c + snd n) # rest) p"
      using True Cons.IH [of "(fst c, snd c + snd n)"] Cons.prems by simp
    also have "\<dots> = covers [(fst c, snd c + snd n)] p + covers rest p"
      by (simp add: covers_Cons)
    also have "\<dots> = covers [(fst c, snd c)] p + covers [(fst n, snd n)] p + covers rest p"
      using covers_split [OF nn, of "fst c" p] True by simp
    finally show ?thesis by (simp add: covers_Cons)
  next
    case False
    then show ?thesis using Cons.IH [of n] Cons.prems by (simp add: covers_Cons)
  qed
qed

lemma pos_coalesce:
  "\<forall>b\<in>set (c # xs). 1 \<le> snd b \<Longrightarrow> \<forall>b\<in>set (coalesce c xs). 1 \<le> snd b"
proof (induction xs arbitrary: c)
  case Nil
  then show ?case by simp
next
  case (Cons n rest)
  show ?case
  proof (cases "fst c + snd c = fst n")
    case True
    with Cons.IH [of "(fst c, snd c + snd n)"] Cons.prems show ?thesis by simp
  next
    case False
    with Cons.IH [of n] Cons.prems show ?thesis by simp
  qed
qed

lemma free_blocks_defragment:
  "free_blocks (defragment a) =
     (case sort (free_blocks a) of [] \<Rightarrow> [] | c # rest \<Rightarrow> coalesce c rest)"
  by (simp add: defragment_def defragment_loop_0)

lemma covers_defragment_loop_sort:
  assumes "\<forall>b\<in>set fb. 1 \<le> snd b"
  shows "covers (defragment_loop 0 (sort fb)) p = covers fb p"
    and "\<forall>b\<in>set (defragment_loop 0 (sort fb)). 1 \<le> snd b"
proof -
  have s: "covers (sort fb) p = covers fb p" by (rule covers_mset) simp
  show "covers (defragment_loop 0 (sort fb)) p = covers fb p"
  proof (cases "sort fb")
    case Nil
    then show ?thesis using s by (simp add: defragment_loop_0)
  next
    case (Cons c rest)
    have "set (c # rest) = set fb" using Cons by (metis set_sort)
    with assms have "\<forall>b\<in>set (c # rest). 0 \<le> snd b" by fastforce
    from covers_coalesce [OF this] Cons s show ?thesis by (simp add: defragment_loop_0)
  qed
  show "\<forall>b\<in>set (defragment_loop 0 (sort fb)). 1 \<le> snd b"
  proof (cases "sort fb")
    case Nil
    then show ?thesis by (simp add: defragment_loop_0)
  next
    case (Cons c rest)
    have "set (c # rest) = set fb" using Cons by (metis set_sort)
    with assms have "\<forall>b\<in>set (c # rest). 1 \<le> snd b" by simp
    from pos_coalesce [OF this] Cons show ?thesis by (simp add: defragment_loop_0)
  qed
qed

lemma layout_defragment: "layout a \<Longrightarrow> layout (defragment a)"
proof -
  assume l: "layout a"
  then have pos: "\<forall>b\<in>set (free_blocks a). 1 \<le> snd b" by (simp add: layout_def blocks_def)
  note d = covers_defragment_loop_sort [OF pos]
  from l d show ?thesis
    by (auto simp: layout_def blocks_def defragment_def covers_append buffer_size_def)
qed

lemma layout_defragment_if_needed: "layout a \<Longrightarrow> layout (defragment_if_needed a)"
  by (simp add: defragment_if_needed_def layout_defragment)

lemma layout_allocate: "layout a \<Longrightarrow> layout (snd (allocate sz a))"
proof (cases "fst (allocate sz a)")
  case (Inl e)
  assume "layout a"
  with allocate_Inl [OF Inl] show ?thesis by simp
next
  case (Inr start)
  assume l: "layout a"
  from Inr have "allocate sz a = (Inr start, snd (allocate sz a))" by (simp add: prod_eq_iff)
  from allocate_Inr [OF this] obtain mid block_size where
    mid: "mid < length (free_blocks a)" and
    blk: "free_blocks a ! mid = (start, block_size)" and
    sz: "0 < sz" "sz \<le> block_size" and
    a': "snd (allocate sz a) = a\<lparr>free_blocks :=
           (if block_size = sz then pop (free_blocks a) mid
            else (free_blocks a)[mid := (start + sz, block_size - sz)]),
           allocations := allocations a @ [(start, sz)]\<rparr>"
    by blast
  define fb where "fb = (if block_size = sz then pop (free_blocks a) mid
             else (free_blocks a)[mid := (start + sz, block_size - sz)])"
  have cov: "covers fb p + covers [(start, sz)] p = covers (free_blocks a) p" for p
  proof (cases "block_size = sz")
    case True
    with covers_pop [OF mid, of p] blk show ?thesis by (simp add: fb_def)
  next
    case False
    from covers_update [OF mid, of "(start + sz, block_size - sz)" p] blk
    have "covers fb p + covers [(start, block_size)] p =
            covers (free_blocks a) p + covers [(start + sz, block_size - sz)] p"
      using False by (simp add: fb_def)
    moreover from covers_split [of sz "block_size - sz" start p] sz
    have "covers [(start, sz)] p + covers [(start + sz, block_size - sz)] p =
            covers [(start, block_size)] p" by simp
    ultimately show ?thesis by simp
  qed
  from l have fpos: "\<forall>b\<in>set (free_blocks a). 1 \<le> snd b"
    by (simp add: layout_def blocks_def)
  have pos: "\<forall>b\<in>set fb. 1 \<le> snd b"
  proof (cases "block_size = sz")
    case True
    have "set (pop (free_blocks a) mid) \<subseteq> set (free_blocks a)"
      by (auto simp: pop_def dest: in_set_takeD in_set_dropD)
    with fpos show ?thesis using True by (auto simp: fb_def)
  next
    case False
    have "set ((free_blocks a)[mid := (start + sz, block_size - sz)])
        \<subseteq> insert (start + sz, block_size - sz) (set (free_blocks a))"
      by (rule set_update_subset_insert)
    with fpos show ?thesis using False sz by (auto simp: fb_def)
  qed
  have a'': "snd (allocate sz a) = a\<lparr>free_blocks := fb,
      allocations := allocations a @ [(start, sz)]\<rparr>"
    using a' by (simp add: fb_def)
  have "covers (blocks (snd (allocate sz a))) p = covers (blocks a) p" for p
    using cov [of p] by (simp add: a'' blocks_def covers_append covers_Cons)
  moreover have "\<forall>b\<in>set (blocks (snd (allocate sz a))). 1 \<le> snd b"
    using pos l sz by (auto simp: a'' blocks_def layout_def)
  moreover have "buffer_size (snd (allocate sz a)) = buffer_size a"
    by (simp add: buffer_size_def)
  ultimately show ?thesis using l by (simp add: layout_def)
qed

lemma layout_free: "layout a \<Longrightarrow> layout (snd (free ptr a))"
proof (cases "fst (free ptr a)")
  case (Inl e)
  assume "layout a"
  with free_Inl [OF Inl] show ?thesis by simp
next
  case (Inr u)
  assume l: "layout a"
  from Inr have "free ptr a = (Inr u, snd (free ptr a))" by (simp add: prod_eq_iff)
  from free_Inr [OF this] obtain i sz where
    i: "i < length (allocations a)" and blk: "allocations a ! i = (ptr, sz)" and
    a': "snd (free ptr a) = defragment_if_needed
           (a\<lparr>allocations := pop (allocations a) i,
              free_blocks := free_blocks a @ [(ptr, sz)]\<rparr>)"
    by blast
  let ?b = "a\<lparr>allocations := pop (allocations a) i, free_blocks := free_blocks a @ [(ptr, sz)]\<rparr>"
  have "covers (blocks ?b) p = covers (blocks a) p" for p
    using covers_pop [OF i, of p] blk by (simp add: blocks_def covers_append)
  moreover have "set (pop (allocations a) i) \<subseteq> set (allocations a)"
    by (auto simp: pop_def dest: in_set_takeD in_set_dropD)
  moreover have "(ptr, sz) \<in> set (allocations a)" using i blk by (metis nth_mem)
  moreover have "1 \<le> sz"
  proof -
    from l have "\<forall>b\<in>set (allocations a). 1 \<le> snd b"
      by (simp add: layout_def blocks_def ball_Un)
    with \<open>(ptr, sz) \<in> set (allocations a)\<close> have "1 \<le> snd (ptr, sz)" by blast
    then show ?thesis by simp
  qed
  ultimately have "layout ?b" using l
    by (auto simp: layout_def blocks_def buffer_size_def)
  then show ?thesis unfolding a' by (rule layout_defragment_if_needed)
qed

lemma layout_step: "layout a \<Longrightarrow> layout (step c a)"
  by (cases c) (simp_all add: layout_allocate layout_free layout_defragment)

lemma layout_run: "layout a \<Longrightarrow> layout (run cs a)"
  by (induction cs arbitrary: a) (simp_all add: layout_step)

subsection \<open>From the counted layout to disjoint ranges\<close>

lemma layout_disjoint:
  assumes "layout a" "i < length (blocks a)" "j < length (blocks a)" "i \<noteq> j"
  shows "range_of (blocks a ! i) \<inter> range_of (blocks a ! j) = {}"
proof (rule ccontr)
  assume "range_of (blocks a ! i) \<inter> range_of (blocks a ! j) \<noteq> {}"
  then obtain p where p: "p \<in> range_of (blocks a ! i)" "p \<in> range_of (blocks a ! j)" by blast
  have "2 \<le> covers (blocks a) p"
  proof (cases "i < j")
    case True
    with assms p show ?thesis by (intro covers_two [of i _ j])
  next
    case False
    with assms(4) have "j < i" by simp
    with assms p show ?thesis by (intro covers_two [of j _ i])
  qed
  moreover from assms(1) have "covers (blocks a) p \<le> 1" by (simp add: layout_def)
  ultimately show False by simp
qed

lemma layout_union:
  assumes "layout a"
  shows "(\<Union>b\<in>set (blocks a). range_of b) = {0..<buffer_size a}"
proof -
  have "p \<in> (\<Union>b\<in>set (blocks a). range_of b) \<longleftrightarrow> p \<in> {0..<buffer_size a}" for p
  proof -
    have "p \<in> (\<Union>b\<in>set (blocks a). range_of b) \<longleftrightarrow> 0 < covers (blocks a) p"
      by (simp add: covers_pos)
    also have "\<dots> \<longleftrightarrow> 0 \<le> p \<and> p < buffer_size a"
      using assms by (simp add: layout_def)
    finally show ?thesis by simp
  qed
  then show ?thesis by blast
qed

lemma layout_distinct_starts:
  assumes "layout a"
  shows "distinct (map fst (blocks a))"
proof -
  have "fst (blocks a ! i) \<noteq> fst (blocks a ! j)"
    if ij: "i < length (blocks a)" "j < length (blocks a)" "i \<noteq> j" for i j
  proof
    assume eq: "fst (blocks a ! i) = fst (blocks a ! j)"
    from assms ij have "1 \<le> snd (blocks a ! i)" "1 \<le> snd (blocks a ! j)"
      by (auto simp: layout_def)
    with eq have "fst (blocks a ! i) \<in> range_of (blocks a ! i) \<inter> range_of (blocks a ! j)"
      by (auto simp: range_of_def)
    with layout_disjoint [OF assms ij] show False by simp
  qed
  then show ?thesis by (simp add: distinct_conv_nth)
qed

lemma layout_well_formed: "layout a \<Longrightarrow> well_formed a"
proof -
  assume l: "layout a"
  from layout_distinct_starts [OF l] have "distinct (map fst (allocations a))"
    by (simp add: blocks_def)
  moreover from l have "\<forall>b\<in>set (blocks a). 1 \<le> snd b" by (simp add: layout_def)
  ultimately show ?thesis
    using layout_disjoint [OF l] layout_union [OF l] by (simp add: well_formed_def)
qed

subsection \<open>Reachable states\<close>

text \<open>
  With a capacity of zero or less every call fails or changes nothing, so the object stays
  as constructed; with a positive capacity every reachable state has the counted layout.
\<close>

lemma step_stuck: "n \<le> 0 \<Longrightarrow> step c (init n) = init n"
proof (cases c)
  case (Allocate sz)
  assume "n \<le> 0"
  then have "buffer_size (init n) = 0" by (simp add: buffer_size_def init_def)
  then have "snd (allocate sz (init n)) = init n" by (simp add: allocate_def)
  with Allocate show ?thesis by simp
next
  case (Free ptr)
  assume "n \<le> 0"
  then have "buffer (init n) = []" by (simp add: init_def)
  then have "snd (free ptr (init n)) = init n" by (simp add: free_def)
  with Free show ?thesis by simp
next
  case Defragment
  have "defragment (init n) = init n"
    by (simp add: defragment_def init_def defragment_loop_0)
  with Defragment show ?thesis by simp
qed

lemma run_stuck: "n \<le> 0 \<Longrightarrow> run cs (init n) = init n"
  by (induction cs) (simp_all add: step_stuck)

lemma reachable_layout: "0 < n \<Longrightarrow> layout (run cs (init n))"
  by (simp add: layout_init layout_run)

lemma reachable_distinct_starts: "distinct (map fst (allocations (run cs (init n))))"
proof (cases "0 < n")
  case True
  from layout_distinct_starts [OF reachable_layout [OF True]] show ?thesis
    by (simp add: blocks_def)
next
  case False
  then show ?thesis by (simp add: run_stuck) (simp add: init_def)
qed

subsection \<open>The results of free\<close>

lemma free_result: "fst (free ptr a) = Inl InvalidPointerError \<or> fst (free ptr a) = Inr ()"
  by (simp add: free_def InvalidPointerError_def Let_def split: option.splits)

lemma free_fails_iff:
  "fst (free ptr a) = Inl InvalidPointerError \<longleftrightarrow>
     \<not> (0 \<le> ptr \<and> ptr < buffer_size a) \<or> ptr \<notin> fst ` set (allocations a)"
proof (cases "find_start ptr (allocations a)")
  case None
  then have "ptr \<notin> fst ` set (allocations a)" by (simp add: find_start_None)
  with None show ?thesis by (simp add: free_def InvalidPointerError_def)
next
  case (Some i)
  then have "ptr \<in> fst ` set (allocations a)"
    using find_start_None [of ptr "allocations a"] by auto
  with Some show ?thesis
    by (simp add: free_def InvalidPointerError_def buffer_size_def Let_def)
qed

lemma pop_distinct_starts:
  assumes "distinct (map fst xs)" "i < length xs"
  shows "fst (xs ! i) \<notin> fst ` set (pop xs i)" "distinct (map fst (pop xs i))"
proof -
  from assms(2) have "xs = take i xs @ xs ! i # drop (Suc i) xs" by (rule id_take_nth_drop)
  then have "map fst xs = map fst (take i xs) @ fst (xs ! i) # map fst (drop (Suc i) xs)"
    by (metis map_append list.simps(9))
  with assms(1) have d: "distinct (map fst (take i xs) @ fst (xs ! i) # map fst (drop (Suc i) xs))"
    by simp
  from d show "fst (xs ! i) \<notin> fst ` set (pop xs i)" by (auto simp: pop_def)
  from d show "distinct (map fst (pop xs i))" by (auto simp: pop_def)
qed

lemma free_twice:
  assumes "distinct (map fst (allocations a))" "fst (free ptr a) = Inr ()"
  shows "fst (free ptr (snd (free ptr a))) = Inl InvalidPointerError"
proof -
  from assms(2) have "free ptr a = (Inr (), snd (free ptr a))" by (simp add: prod_eq_iff)
  from free_Inr [OF this] obtain i sz where
    i: "i < length (allocations a)" "allocations a ! i = (ptr, sz)" and
    a': "snd (free ptr a) = defragment_if_needed
           (a\<lparr>allocations := pop (allocations a) i,
              free_blocks := free_blocks a @ [(ptr, sz)]\<rparr>)"
    by blast
  from a' have "allocations (snd (free ptr a)) = pop (allocations a) i" by simp
  moreover from pop_distinct_starts(1) [OF assms(1) i(1)] i(2)
  have "ptr \<notin> fst ` set (pop (allocations a) i)" by simp
  ultimately show ?thesis by (simp add: free_fails_iff)
qed

subsection \<open>The free list after defragment\<close>

lemma sorted_before:
  assumes "sorted xs" "\<forall>b\<in>set xs. 1 \<le> snd b" "\<forall>p. covers xs p \<le> 1"
  shows "sorted_wrt before xs"
proof -
  have "before (xs ! i) (xs ! j)" if ij: "i < j" "j < length xs" for i j
  proof (rule ccontr)
    assume nb: "\<not> before (xs ! i) (xs ! j)"
    from assms(1) ij have "xs ! i \<le> xs ! j" by (simp add: sorted_iff_nth_mono)
    then have le: "fst (xs ! i) \<le> fst (xs ! j)" by (auto simp: less_eq_prod_def)
    from assms(2) ij have "1 \<le> snd (xs ! j)" by simp
    with le nb have "fst (xs ! j) \<in> range_of (xs ! i)" "fst (xs ! j) \<in> range_of (xs ! j)"
      by (auto simp: range_of_def before_def)
    with ij have "2 \<le> covers xs (fst (xs ! j))" by (intro covers_two [of i _ j]) auto
    with assms(3) show False by (metis numeral_le_one_iff order_trans semiring_norm(69))
  qed
  then show ?thesis by (simp add: sorted_wrt_iff_nth_less)
qed

lemma fst_coalesce: "fst ` set (coalesce c xs) \<subseteq> insert (fst c) (fst ` set xs)"
proof (induction xs arbitrary: c)
  case Nil
  then show ?case by simp
next
  case (Cons n rest)
  show ?case
  proof (cases "fst c + snd c = fst n")
    case True
    with Cons.IH [of "(fst c, snd c + snd n)"] show ?thesis by auto
  next
    case False
    with Cons.IH [of n] show ?thesis by auto
  qed
qed

lemma apart_coalesce:
  assumes "sorted_wrt before (c # xs)" "\<forall>b\<in>set (c # xs). 1 \<le> snd b"
  shows "sorted_wrt apart (coalesce c xs)"
  using assms
proof (induction xs arbitrary: c)
  case Nil
  then show ?case by simp
next
  case (Cons n rest)
  show ?case
  proof (cases "fst c + snd c = fst n")
    case True
    from Cons.prems(1) have sr: "sorted_wrt before rest" and nb: "\<forall>y\<in>set rest. before n y"
      by simp_all
    have "\<forall>y\<in>set rest. before (fst c, snd c + snd n) y"
    proof
      fix y assume "y \<in> set rest"
      with nb have "fst n + snd n \<le> fst y" by (simp add: before_def)
      with True show "before (fst c, snd c + snd n) y" unfolding before_def by simp
    qed
    with sr have "sorted_wrt before ((fst c, snd c + snd n) # rest)" by simp
    moreover have "\<forall>b\<in>set ((fst c, snd c + snd n) # rest). 1 \<le> snd b"
      using Cons.prems(2) by auto
    ultimately show ?thesis using Cons.IH [of "(fst c, snd c + snd n)"] True by simp
  next
    case False
    from Cons.prems have ih: "sorted_wrt apart (coalesce n rest)"
      by (intro Cons.IH) auto
    have "apart c y" if y: "y \<in> set (coalesce n rest)" for y
    proof -
      from y fst_coalesce [of n rest] have "fst y = fst n \<or> fst y \<in> fst ` set rest" by auto
      moreover from Cons.prems have "1 \<le> snd n" "\<forall>z\<in>set rest. fst n + snd n \<le> fst z"
        by (auto simp: before_def)
      ultimately have "fst n \<le> fst y" by auto
      moreover from Cons.prems(1) False have "fst c + snd c < fst n" by (auto simp: before_def)
      ultimately show ?thesis by (simp add: apart_def)
    qed
    with ih False show ?thesis by simp
  qed
qed

lemma coalesce_apart: "sorted_wrt apart (c # xs) \<Longrightarrow> coalesce c xs = c # xs"
  by (induction xs arbitrary: c) (auto simp: apart_def)

lemma apart_sorted:
  assumes "sorted_wrt apart xs" "\<forall>b\<in>set xs. 1 \<le> snd b"
  shows "sorted xs"
proof -
  have "x \<le> y" if "x \<in> set xs" "apart x y" for x y
    using that assms(2) by (auto simp: apart_def less_eq_prod_def)
  with assms(1) show ?thesis by (metis (no_types, lifting) sorted_wrt_mono_rel)
qed

lemma apart_no_adjacent:
  assumes "sorted_wrt apart xs" "\<forall>b\<in>set xs. 1 \<le> snd b"
  shows "no_adjacent xs"
proof -
  have "fst (xs ! i) + snd (xs ! i) \<noteq> fst (xs ! j)"
    if ij: "i < length xs" "j < length xs" "i \<noteq> j" for i j
  proof (cases "i < j")
    case True
    with assms(1) ij have "apart (xs ! i) (xs ! j)" by (simp add: sorted_wrt_iff_nth_less)
    then show ?thesis by (simp add: apart_def)
  next
    case False
    with ij have "j < i" by simp
    with assms(1) ij have "apart (xs ! j) (xs ! i)" by (simp add: sorted_wrt_iff_nth_less)
    moreover from assms(2) ij have "1 \<le> snd (xs ! i)" "1 \<le> snd (xs ! j)" by auto
    ultimately show ?thesis by (simp add: apart_def)
  qed
  then show ?thesis by (simp add: no_adjacent_def)
qed

lemma layout_free_covers:
  assumes "layout a"
  shows "\<forall>b\<in>set (free_blocks a). 1 \<le> snd b" "\<forall>p. covers (free_blocks a) p \<le> 1"
proof -
  from assms show "\<forall>b\<in>set (free_blocks a). 1 \<le> snd b" by (simp add: layout_def blocks_def)
  show "\<forall>p. covers (free_blocks a) p \<le> 1"
  proof
    fix p
    have "covers (free_blocks a) p \<le> covers (blocks a) p"
      by (simp add: blocks_def covers_append)
    also from assms have "\<dots> \<le> 1" by (simp add: layout_def)
    finally show "covers (free_blocks a) p \<le> 1" .
  qed
qed

lemma layout_sort_before:
  assumes "layout a"
  shows "sorted_wrt before (sort (free_blocks a))" "\<forall>b\<in>set (sort (free_blocks a)). 1 \<le> snd b"
proof -
  note f = layout_free_covers [OF assms]
  from f(1) show pos: "\<forall>b\<in>set (sort (free_blocks a)). 1 \<le> snd b" by simp
  have "covers (sort (free_blocks a)) p = covers (free_blocks a) p" for p
    by (rule covers_mset) simp
  with f(2) have "\<forall>p. covers (sort (free_blocks a)) p \<le> 1" by simp
  with pos show "sorted_wrt before (sort (free_blocks a))"
    by (intro sorted_before) simp_all
qed

lemma layout_defragment_apart:
  assumes "layout a"
  shows "sorted_wrt apart (free_blocks (defragment a))"
    "\<forall>b\<in>set (free_blocks (defragment a)). 1 \<le> snd b"
proof -
  from layout_defragment [OF assms]
  show "\<forall>b\<in>set (free_blocks (defragment a)). 1 \<le> snd b" by (simp add: layout_def blocks_def)
  note s = layout_sort_before [OF assms]
  show "sorted_wrt apart (free_blocks (defragment a))"
  proof (cases "sort (free_blocks a)")
    case Nil
    then show ?thesis by (simp add: free_blocks_defragment)
  next
    case (Cons c rest)
    with s have "sorted_wrt apart (coalesce c rest)" by (intro apart_coalesce) simp_all
    with Cons show ?thesis by (simp add: free_blocks_defragment)
  qed
qed

lemma defragment_loop_sort_apart:
  assumes "sorted_wrt apart xs" "\<forall>b\<in>set xs. 1 \<le> snd b"
  shows "defragment_loop 0 (sort xs) = xs"
proof -
  from apart_sorted [OF assms] have "sort xs = xs" by (rule sorted_sort_id)
  moreover have "defragment_loop 0 xs = xs"
  proof (cases xs)
    case Nil
    then show ?thesis by (simp add: defragment_loop_0)
  next
    case (Cons c rest)
    with assms(1) coalesce_apart [of c rest] show ?thesis by (simp add: defragment_loop_0)
  qed
  ultimately show ?thesis by simp
qed

lemma layout_defragment_idem: "layout a \<Longrightarrow> defragment (defragment a) = defragment a"
proof -
  assume "layout a"
  from defragment_loop_sort_apart [OF layout_defragment_apart [OF this]]
  have "defragment_loop 0 (sort (free_blocks (defragment a))) = free_blocks (defragment a)" .
  then show ?thesis by (simp add: defragment_def)
qed

lemma defragment_init: "defragment (init n) = init n"
  by (simp add: defragment_def init_def defragment_loop_0)

subsection \<open>Splitting a free block and merging it again\<close>

lemma layout_mset:
  assumes "layout a" "mset (blocks b) = mset (blocks a)" "buffer b = buffer a"
  shows "layout b"
proof -
  from assms(2) have "set (blocks b) = set (blocks a)" by (rule mset_eq_setD)
  moreover have "covers (blocks b) p = covers (blocks a) p" for p
    using assms(2) by (rule covers_mset)
  ultimately show ?thesis using assms(1,3) by (simp add: layout_def buffer_size_def)
qed

lemma find_start_append:
  "ptr \<notin> fst ` set xs \<Longrightarrow> find_start ptr (xs @ [(ptr, sz)]) = Some (length xs)"
  by (induction xs) auto

lemma pop_append_last: "pop (xs @ [x]) (length xs) = xs"
  by (simp add: pop_def)

lemma coalesce_split:
  "coalesce c (xs @ (s, n) # (s + n, m) # ys) = coalesce c (xs @ (s, n + m) # ys)"
proof (induction xs arbitrary: c)
  case Nil
  show ?case by (simp add: add.assoc)
next
  case (Cons x xs)
  show ?case
  proof (cases "fst c + snd c = fst x")
    case True
    with Cons [of "(fst c, snd c + snd x)"] show ?thesis by simp
  next
    case False
    with Cons [of x] show ?thesis by simp
  qed
qed

lemma defragment_loop_split:
  "defragment_loop 0 (xs @ (s, n) # (s + n, m) # ys) = defragment_loop 0 (xs @ (s, n + m) # ys)"
proof (cases xs)
  case Nil
  then show ?thesis by (simp add: defragment_loop_0)
next
  case (Cons c rest)
  with coalesce_split [of c rest s n m ys] show ?thesis by (simp add: defragment_loop_0)
qed

lemma before_sorted:
  assumes "sorted_wrt before xs" "\<forall>b\<in>set xs. 1 \<le> snd b"
  shows "sorted xs"
proof -
  have "x \<le> y" if "x \<in> set xs" "before x y" for x y
    using that assms(2) by (auto simp: before_def less_eq_prod_def)
  with assms(1) show ?thesis by (metis (no_types, lifting) sorted_wrt_mono_rel)
qed

text \<open>Splitting one block of a free list in two leaves the defragmented list as it was.\<close>

lemma defragment_split_block:
  assumes pos: "\<forall>b\<in>set fb. 1 \<le> snd b" and cov: "\<forall>p. covers fb p \<le> 1"
    and mid: "mid < length fb" "fb ! mid = (s, l)" and sz: "0 < sz" "sz < l"
  shows "defragment_loop 0 (sort (fb[mid := (s + sz, l - sz)] @ [(s, sz)]))
           = defragment_loop 0 (sort fb)"
proof -
  have sb: "sorted_wrt before (sort fb)"
  proof (rule sorted_before)
    show "sorted (sort fb)" by simp
    from pos show "\<forall>b\<in>set (sort fb). 1 \<le> snd b" by simp
    have "covers (sort fb) p = covers fb p" for p by (rule covers_mset) simp
    with cov show "\<forall>p. covers (sort fb) p \<le> 1" by simp
  qed
  from mid have "(s, l) \<in> set (sort fb)" by (metis nth_mem set_sort)
  then obtain xs ys where split: "sort fb = xs @ (s, l) # ys" by (meson split_list)
  define zs where "zs = xs @ (s, sz) # (s + sz, l - sz) # ys"
  have m: "mset zs = mset (fb[mid := (s + sz, l - sz)] @ [(s, sz)])"
  proof -
    have "mset fb = mset (sort fb)" by simp
    also have "\<dots> = mset xs + {#(s, l)#} + mset ys" by (simp add: split)
    finally have fb: "mset fb = mset xs + {#(s, l)#} + mset ys" .
    from mid have "mset (fb[mid := (s + sz, l - sz)]) = add_mset (s + sz, l - sz) (mset fb - {#(s, l)#})"
      by (simp add: mset_update)
    with fb show ?thesis by (simp add: zs_def)
  qed
  have bz: "sorted_wrt before zs"
    using sb sz unfolding split zs_def
    by (auto simp: sorted_wrt_append before_def)
  have pz: "\<forall>b\<in>set zs. 1 \<le> snd b"
  proof -
    from pos have "\<forall>b\<in>set (sort fb). 1 \<le> snd b" by simp
    with sz show ?thesis unfolding split zs_def by auto
  qed
  from before_sorted [OF bz pz] m have "sort (fb[mid := (s + sz, l - sz)] @ [(s, sz)]) = zs"
    by (intro properties_for_sort) simp_all
  moreover have "defragment_loop 0 zs = defragment_loop 0 (sort fb)"
    using defragment_loop_split [of xs s sz "l - sz" ys] by (simp add: zs_def split)
  ultimately show ?thesis by simp
qed

lemma defragment_pop_block:
  assumes "mid < length fb"
  shows "sort (pop fb mid @ [fb ! mid]) = sort fb"
proof -
  from assms have "fb = take mid fb @ fb ! mid # drop (Suc mid) fb" by (rule id_take_nth_drop)
  then have "mset fb = mset (take mid fb @ fb ! mid # drop (Suc mid) fb)" by simp
  then have "mset (pop fb mid @ [fb ! mid]) = mset fb" by (simp add: pop_def)
  then have "mset (sort fb) = mset (pop fb mid @ [fb ! mid])" by simp
  then show ?thesis by (intro properties_for_sort) simp_all
qed

lemma allocate_free_defragment:
  assumes l: "layout s" and al: "allocate sz s = (Inr off, s1)"
  shows "fst (free off s1) = Inr () \<and> defragment (snd (free off s1)) = defragment s"
proof -
  from allocate_Inr [OF al] obtain mid bs where
    mid: "mid < length (free_blocks s)" and blk: "free_blocks s ! mid = (off, bs)" and
    sz: "0 < sz" "sz \<le> bs" and
    s1: "s1 = s\<lparr>free_blocks :=
           (if bs = sz then pop (free_blocks s) mid
            else (free_blocks s)[mid := (off + sz, bs - sz)]),
           allocations := allocations s @ [(off, sz)]\<rparr>"
    by blast
  define fb1 where "fb1 = (if bs = sz then pop (free_blocks s) mid
            else (free_blocks s)[mid := (off + sz, bs - sz)])"
  have s1': "s1 = s\<lparr>free_blocks := fb1, allocations := allocations s @ [(off, sz)]\<rparr>"
    using s1 by (simp add: fb1_def)
  from mid blk have mem: "(off, bs) \<in> set (free_blocks s)" by (metis nth_mem)
  have rng: "0 \<le> off" "off < buffer_size s"
  proof -
    from sz have "off \<in> range_of (off, bs)" by (simp add: range_of_def)
    with mem have "0 < covers (blocks s) off" by (auto simp: covers_pos blocks_def)
    with l have "0 \<le> off \<and> off < buffer_size s" by (simp add: layout_def split: if_splits)
    then show "0 \<le> off" "off < buffer_size s" by simp_all
  qed
  have fresh: "off \<notin> fst ` set (allocations s)"
  proof -
    from layout_distinct_starts [OF l]
    have "set (map fst (allocations s)) \<inter> set (map fst (free_blocks s)) = {}"
      by (simp add: blocks_def)
    moreover from mem have "off \<in> set (map fst (free_blocks s))" by force
    ultimately show ?thesis by auto
  qed
  define b where "b = s\<lparr>free_blocks := fb1 @ [(off, sz)]\<rparr>"
  have fr: "free off s1 = (Inr (), defragment_if_needed b)"
    using rng find_start_append [OF fresh, of sz]
    by (simp add: free_def s1' b_def buffer_size_def pop_append_last)
  have "layout s1" using layout_allocate [OF l, of sz] al by simp
  then have lb: "layout b"
    by (rule layout_mset) (simp_all add: b_def s1' blocks_def)
  have 1: "defragment (defragment_if_needed b) = defragment b"
    using layout_defragment_idem [OF lb] by (simp add: defragment_if_needed_def)
  have "defragment_loop 0 (sort (fb1 @ [(off, sz)])) = defragment_loop 0 (sort (free_blocks s))"
  proof (cases "bs = sz")
    case True
    with defragment_pop_block [OF mid] blk show ?thesis by (simp add: fb1_def)
  next
    case False
    with sz have "sz < bs" by simp
    from defragment_split_block [OF layout_free_covers [OF l] mid blk sz(1) this] False
    show ?thesis by (simp add: fb1_def)
  qed
  then have 2: "defragment b = defragment s" by (simp add: defragment_def b_def)
  from fr 1 2 show ?thesis by simp
qed

section \<open>The claims\<close>

subsection \<open>Construction\<close>

text \<open>
  Constructing with a capacity of zero, on a platform with 64-bit indices, returns an
  object, with an empty buffer and the free block \<open>(0, 0)\<close>; no error is raised.
\<close>

theorem construction_of_empty_buffer_succeeds:
  "FixedBufferAllocator \<lparr>maxsize = 9223372036854775807, list_limit = 1000000\<rparr> 0 =
     Inr \<lparr>buffer = [], allocations = [], free_blocks = [(0, 0)]\<rparr> \<and>
   FixedBufferAllocator \<lparr>maxsize = 9223372036854775807, list_limit = 1000000\<rparr> 0 \<noteq>
     Inl InvalidSizeError"
  by (simp add: FixedBufferAllocator_def init_def)

text \<open>
  C4, as the code has it: no constructor call raises the invalid-size error. A capacity of
  zero or less that fits the index-sized integers gives an object with an empty buffer, no
  allocation and the one free block \<open>(0, n)\<close>. Whenever construction with a positive
  capacity \<open>n\<close> succeeds, the object has no allocation, its capacity is \<open>n\<close>, and its one
  free block \<open>(0, n)\<close> spans the whole buffer.
\<close>

theorem construction_has_no_size_check:
  "FixedBufferAllocator p n \<noteq> Inl InvalidSizeError \<and>
   (- int (maxsize p) - 1 \<le> n \<and> n \<le> 0 \<longrightarrow>
      FixedBufferAllocator p n = Inr (init n) \<and> buffer (init n) = [] \<and>
      allocations (init n) = [] \<and> free_blocks (init n) = [(0, n)]) \<and>
   (0 < n \<and> FixedBufferAllocator p n = Inr a \<longrightarrow>
      allocations a = [] \<and> free_blocks a = [(0, n)] \<and> buffer_size a = n \<and>
      (\<Union>b\<in>set (free_blocks a). range_of b) = {0..<buffer_size a})"
proof -
  have 1: "FixedBufferAllocator p n \<noteq> Inl InvalidSizeError"
    by (simp add: FixedBufferAllocator_def InvalidSizeError_def)
  have 2: "FixedBufferAllocator p n = Inr (init n) \<and> buffer (init n) = [] \<and>
      allocations (init n) = [] \<and> free_blocks (init n) = [(0, n)]"
    if "- int (maxsize p) - 1 \<le> n" "n \<le> 0"
    using that by (simp add: FixedBufferAllocator_def init_def)
  have 3: "allocations a = [] \<and> free_blocks a = [(0, n)] \<and> buffer_size a = n \<and>
      (\<Union>b\<in>set (free_blocks a). range_of b) = {0..<buffer_size a}"
    if "0 < n" "FixedBufferAllocator p n = Inr a"
  proof -
    from that have "a = init n"
      by (simp add: FixedBufferAllocator_def split: if_splits)
    with that(1) show ?thesis by (simp add: init_def buffer_size_def range_of_def)
  qed
  from 1 2 3 show ?thesis by blast
qed

theorem construction_has_no_size_check_witness:
  "FixedBufferAllocator \<lparr>maxsize = 9223372036854775807, list_limit = 1000000\<rparr> (- 3) =
     Inr (init (- 3)) \<and>
   free_blocks (init (- 3)) = [(0, - 3)] \<and>
   FixedBufferAllocator \<lparr>maxsize = 9223372036854775807, list_limit = 1000000\<rparr> 20 =
     Inr (init 20) \<and>
   (\<Union>b\<in>set (free_blocks (init 20)). range_of b) = {0..<buffer_size (init 20)}"
proof -
  let ?p = "\<lparr>maxsize = 9223372036854775807, list_limit = 1000000\<rparr>"
  have 1: "- int (maxsize ?p) - 1 \<le> - 3 \<and> (- 3 :: int) \<le> 0" by simp
  have 2: "(0::int) < 20 \<and> FixedBufferAllocator ?p 20 = Inr (init 20)"
    by (simp add: FixedBufferAllocator_def)
  from 1 2 construction_has_no_size_check [of ?p "- 3"]
    construction_has_no_size_check [of ?p 20 "init 20"]
  show ?thesis by blast
qed

subsection \<open>The errors of allocate\<close>

text \<open>
  C5: \<^verbatim>\<open>allocate(size)\<close> raises the invalid-size error exactly when \<open>size \<le> 0\<close> and the
  capacity-exceeded error exactly when \<open>size\<close> is above the capacity, in every state; the
  out-of-memory error is raised only for \<open>0 < size \<le> capacity\<close>; and the three errors are
  different values, so the caller can tell which one occurred. (The last two share the
  class \<^verbatim>\<open>MemoryError\<close> and differ in the message.)
\<close>

theorem allocate_error_conditions:
  "(fst (allocate sz a) = Inl InvalidSizeError \<longleftrightarrow> sz \<le> 0) \<and>
   (fst (allocate sz a) = Inl CapacityExceededError \<longleftrightarrow> buffer_size a < sz) \<and>
   (fst (allocate sz a) = Inl OutOfMemoryError \<longrightarrow> 0 < sz \<and> sz \<le> buffer_size a) \<and>
   InvalidSizeError \<noteq> CapacityExceededError \<and> InvalidSizeError \<noteq> OutOfMemoryError \<and>
   CapacityExceededError \<noteq> OutOfMemoryError"
  by (auto simp: allocate_def InvalidSizeError_def CapacityExceededError_def
      OutOfMemoryError_def buffer_size_def Let_def split: option.splits)

theorem allocate_error_conditions_witness:
  "fst (allocate 50 (run [Allocate 60] (init 100))) = Inl OutOfMemoryError \<and>
   (0::int) < 50 \<and> 50 \<le> buffer_size (run [Allocate 60] (init 100)) \<and>
   fst (allocate 150 (run [Allocate 60] (init 100))) = Inl CapacityExceededError \<and>
   fst (allocate 0 (run [Allocate 60] (init 100))) = Inl InvalidSizeError"
proof -
  have 1: "fst (allocate 50 (run [Allocate 60] (init 100))) = Inl OutOfMemoryError"
    by (simp add: allocate_def init_def buffer_size_def search.simps OutOfMemoryError_def)
  have 2: "buffer_size (run [Allocate 60] (init 100)) < 150"
    by (simp add: buffer_size_def init_def)
  have 3: "(0::int) \<le> 0" by simp
  from 1 2 3 allocate_error_conditions [of 50 "run [Allocate 60] (init 100)"]
    allocate_error_conditions [of 150 "run [Allocate 60] (init 100)"]
    allocate_error_conditions [of 0 "run [Allocate 60] (init 100)"]
  show ?thesis by blast
qed

subsection \<open>Failed calls\<close>

text \<open>
  C7: a call of \<^verbatim>\<open>allocate\<close> or \<^verbatim>\<open>free\<close> that raises leaves the object (its buffer, its
  allocations and its free blocks) exactly as it was, in every state.
\<close>

theorem failed_call_changes_nothing:
  "(fst (allocate sz a) = Inl e \<longrightarrow> snd (allocate sz a) = a) \<and>
   (fst (free ptr a) = Inl e' \<longrightarrow> snd (free ptr a) = a)"
  by (auto simp: allocate_def free_def Let_def split: option.splits)

theorem failed_call_changes_nothing_witness:
  "fst (allocate 150 (init 100)) = Inl CapacityExceededError \<and>
   snd (allocate 150 (init 100)) = init 100 \<and>
   fst (free 3 (init 100)) = Inl InvalidPointerError \<and>
   snd (free 3 (init 100)) = init 100"
proof -
  have 1: "fst (allocate 150 (init 100)) = Inl CapacityExceededError"
    by (simp add: allocate_def init_def buffer_size_def CapacityExceededError_def)
  have 2: "fst (free 3 (init 100)) = Inl InvalidPointerError"
    by (simp add: free_def init_def InvalidPointerError_def)
  from 1 2 failed_call_changes_nothing
    [of 150 "init 100" CapacityExceededError 3 InvalidPointerError]
  show ?thesis by blast
qed

subsection \<open>The block the search picks\<close>

text \<open>
  C1 at a state the calls reach: with the free blocks \<open>[(0, 10), (11, 7)]\<close> a request of
  size 5 is served from the block of size 10 (it returns 0 and leaves \<open>(5, 5)\<close>), though
  the block \<open>(11, 7)\<close> is large enough and smaller. The binary search reads the middle
  block first and stops there, the list not being ordered by size.
\<close>

theorem allocate_takes_larger_block:
  "free_blocks (run [Allocate 10, Allocate 1, Allocate 7, Allocate 2, Free 0, Free 11]
      (init 20)) = [(0, 10), (11, 7)] \<and>
   fst (allocate 5 (run [Allocate 10, Allocate 1, Allocate 7, Allocate 2, Free 0, Free 11]
      (init 20))) = Inr 0 \<and>
   free_blocks (snd (allocate 5
      (run [Allocate 10, Allocate 1, Allocate 7, Allocate 2, Free 0, Free 11] (init 20))))
     = [(5, 5), (11, 7)]"
  by (simp add: allocate_def free_def init_def search.simps defragment_if_needed_def
      pop_def buffer_size_def Let_def)

text \<open>
  C2 at a state the calls reach: with the free blocks \<open>[(0, 10), (11, 3), (15, 3)]\<close> a
  request of size 5 raises the out-of-memory error, though the block \<open>(0, 10)\<close> is large
  enough. The binary search sees the middle block too small and goes right.
\<close>

theorem allocate_misses_sufficient_block:
  "free_blocks (run [Allocate 10, Allocate 1, Allocate 3, Allocate 1, Allocate 3, Allocate 2,
      Free 0, Free 11, Free 15] (init 20)) = [(0, 10), (11, 3), (15, 3)] \<and>
   fst (allocate 5 (run [Allocate 10, Allocate 1, Allocate 3, Allocate 1, Allocate 3,
      Allocate 2, Free 0, Free 11, Free 15] (init 20))) = Inl OutOfMemoryError"
  by (simp add: allocate_def free_def init_def search.simps defragment_if_needed_def
      pop_def buffer_size_def Let_def OutOfMemoryError_def)

subsection \<open>The layout invariant\<close>

text \<open>
  C3: after construction with a positive capacity \<open>n\<close> and any sequence of
  \<^verbatim>\<open>allocate\<close>, \<^verbatim>\<open>free\<close> and \<^verbatim>\<open>defragment\<close> calls (failed ones included), the ranges of
  the allocations and free blocks are pairwise disjoint, their union is \<open>[0, n)\<close>, every
  stored size is at least one, and no two allocations start at the same index.
\<close>

theorem reachable_well_formed:
  "0 < n \<Longrightarrow> well_formed (run cs (init n)) \<and> buffer_size (run cs (init n)) = n"
  by (simp add: layout_well_formed reachable_layout buffer_size_run)

theorem reachable_well_formed_witness:
  "(0::int) < 20 \<and>
   well_formed (run [Allocate 5, Allocate 5, Free 0, Allocate 3, Defragment, Free 5] (init 20)) \<and>
   buffer_size (run [Allocate 5, Allocate 5, Free 0, Allocate 3, Defragment, Free 5] (init 20)) = 20"
proof -
  have "(0::int) < 20" by simp
  with reachable_well_formed
    [of 20 "[Allocate 5, Allocate 5, Free 0, Allocate 3, Defragment, Free 5]"]
  show ?thesis by blast
qed

subsection \<open>The block a successful allocate takes\<close>

text \<open>
  C10: in every state, when \<^verbatim>\<open>allocate(size)\<close> returns \<open>start\<close>, the free block it took
  (at some index \<open>mid\<close> of the free list) starts at \<open>start\<close> and has a size of at least
  \<open>size\<close>; the recorded allocation \<open>(start, size)\<close> lies within that block; and the free
  list either loses the block (sizes equal) or keeps the rest of it, of positive size.
\<close>

theorem allocate_takes_sufficient_block:
  "allocate sz a = (Inr start, a') \<Longrightarrow>
     \<exists>mid block_size.
       mid < length (free_blocks a) \<and> free_blocks a ! mid = (start, block_size) \<and>
       sz \<le> block_size \<and>
       allocations a' = allocations a @ [(start, sz)] \<and>
       range_of (start, sz) \<subseteq> range_of (start, block_size) \<and>
       (if block_size = sz then free_blocks a' = pop (free_blocks a) mid
        else free_blocks a' = (free_blocks a)[mid := (start + sz, block_size - sz)] \<and>
             0 < block_size - sz)"
proof -
  assume "allocate sz a = (Inr start, a')"
  from allocate_Inr [OF this] obtain mid block_size where
    *: "mid < length (free_blocks a)" "free_blocks a ! mid = (start, block_size)"
       "0 < sz" "sz \<le> block_size"
       "a' = a\<lparr>free_blocks :=
           (if block_size = sz then pop (free_blocks a) mid
            else (free_blocks a)[mid := (start + sz, block_size - sz)]),
           allocations := allocations a @ [(start, sz)]\<rparr>"
    by blast
  show ?thesis
    apply (rule exI [of _ mid], rule exI [of _ block_size])
    using * by (auto simp: range_of_def)
qed

theorem allocate_takes_sufficient_block_witness:
  "allocate 5 (init 20) =
     (Inr 0, \<lparr>buffer = replicate 20 (), allocations = [(0, 5)], free_blocks = [(5, 15)]\<rparr>) \<and>
   (\<exists>mid block_size.
       mid < length (free_blocks (init 20)) \<and>
       free_blocks (init 20) ! mid = (0, block_size) \<and> 5 \<le> block_size \<and>
       range_of (0, 5) \<subseteq> range_of (0, block_size))"
proof -
  have h: "allocate 5 (init 20) =
     (Inr 0, \<lparr>buffer = replicate 20 (), allocations = [(0, 5)], free_blocks = [(5, 15)]\<rparr>)"
    by (simp add: allocate_def init_def buffer_size_def search.simps)
  from allocate_takes_sufficient_block [OF h] h show ?thesis by blast
qed

subsection \<open>The errors of free\<close>

text \<open>
  C6: in every state \<open>s\<close> that construction and a sequence of calls reach, \<^verbatim>\<open>free(ptr)\<close>
  raises the invalid-pointer error exactly when \<open>ptr\<close> is outside \<open>[0, capacity)\<close> or no
  allocation starts at \<open>ptr\<close>; otherwise it returns, and then a second \<^verbatim>\<open>free(ptr)\<close>
  right after it raises the invalid-pointer error.
\<close>

theorem free_invalid_pointer:
  "s = run cs (init n) \<Longrightarrow>
     (fst (free ptr s) = Inl InvalidPointerError \<longleftrightarrow>
        \<not> (0 \<le> ptr \<and> ptr < buffer_size s) \<or> ptr \<notin> fst ` set (allocations s)) \<and>
     (fst (free ptr s) \<noteq> Inl InvalidPointerError \<longrightarrow>
        fst (free ptr s) = Inr () \<and>
        fst (free ptr (snd (free ptr s))) = Inl InvalidPointerError)"
proof -
  assume s: "s = run cs (init n)"
  then have d: "distinct (map fst (allocations s))" by (simp add: reachable_distinct_starts)
  show ?thesis using free_fails_iff [of ptr s] free_result [of ptr s] free_twice [OF d, of ptr]
    by blast
qed

theorem free_invalid_pointer_witness:
  "fst (free 5 (run [Allocate 5, Allocate 3] (init 20))) = Inr () \<and>
   fst (free 5 (snd (free 5 (run [Allocate 5, Allocate 3] (init 20))))) =
     Inl InvalidPointerError"
proof -
  have "fst (free 5 (run [Allocate 5, Allocate 3] (init 20))) \<noteq> Inl InvalidPointerError"
    by (simp add: allocate_def free_def init_def search.simps defragment_if_needed_def
        pop_def buffer_size_def Let_def)
  with free_invalid_pointer [OF refl, of 5 "[Allocate 5, Allocate 3]" 20]
  show ?thesis by blast
qed

subsection \<open>Defragmentation\<close>

text \<open>
  C9: in every state \<open>s\<close> that construction and a sequence of calls reach, a second
  \<^verbatim>\<open>defragment()\<close> right after a first changes nothing (the free list, and the whole
  object, stay as the first call left them), and after \<^verbatim>\<open>defragment()\<close> no free block
  ends where another free block starts.
\<close>

theorem defragment_idempotent:
  "s = run cs (init n) \<Longrightarrow>
     defragment (defragment s) = defragment s \<and> no_adjacent (free_blocks (defragment s))"
proof (cases "0 < n")
  case True
  assume "s = run cs (init n)"
  with True have l: "layout s" by (simp add: reachable_layout)
  from layout_defragment_apart [OF l] have "no_adjacent (free_blocks (defragment s))"
    by (rule apart_no_adjacent)
  with layout_defragment_idem [OF l] show ?thesis by simp
next
  case False
  assume "s = run cs (init n)"
  with False have "s = init n" by (simp add: run_stuck)
  then show ?thesis by (simp add: defragment_init) (simp add: init_def no_adjacent_def)
qed

theorem defragment_idempotent_witness:
  "defragment (defragment (run [Allocate 5, Allocate 5, Allocate 5, Free 0, Free 5] (init 20)))
     = defragment (run [Allocate 5, Allocate 5, Allocate 5, Free 0, Free 5] (init 20)) \<and>
   no_adjacent (free_blocks (defragment
     (run [Allocate 5, Allocate 5, Allocate 5, Free 0, Free 5] (init 20))))"
  using defragment_idempotent
    [OF refl, of "[Allocate 5, Allocate 5, Allocate 5, Free 0, Free 5]" 20]
  by blast

subsection \<open>Allocating and freeing again\<close>

text \<open>
  C8: in every state \<open>s\<close> that construction and a sequence of calls reach, when
  \<^verbatim>\<open>allocate(n)\<close> returns \<open>off\<close>, the call \<^verbatim>\<open>free(off)\<close> right after it returns, and
  \<^verbatim>\<open>defragment()\<close> then leaves the same free list as \<^verbatim>\<open>defragment()\<close> on \<open>s\<close> does (the
  same list of blocks, hence the same set); the whole object is then the same.
\<close>

theorem allocate_free_round_trip:
  "s = run cs (init n) \<Longrightarrow> allocate sz s = (Inr off, s1) \<Longrightarrow>
     fst (free off s1) = Inr () \<and>
     free_blocks (defragment (snd (free off s1))) = free_blocks (defragment s) \<and>
     defragment (snd (free off s1)) = defragment s"
proof -
  assume s: "s = run cs (init n)" and al: "allocate sz s = (Inr off, s1)"
  from allocate_Inr [OF al] have "0 < sz" "sz \<le> buffer_size s" by auto
  with s have "0 < n" by (simp add: buffer_size_run)
  with s have "layout s" by (simp add: reachable_layout)
  from allocate_free_defragment [OF this al] show ?thesis by simp
qed

theorem allocate_free_round_trip_witness:
  "allocate 4 (run [Allocate 5, Allocate 5, Free 0] (init 20)) =
     (Inr 10, \<lparr>buffer = replicate 20 (), allocations = [(5, 5), (10, 4)],
               free_blocks = [(14, 6), (0, 5)]\<rparr>) \<and>
   fst (free 10 \<lparr>buffer = replicate 20 (), allocations = [(5, 5), (10, 4)],
               free_blocks = [(14, 6), (0, 5)]\<rparr>) = Inr () \<and>
   free_blocks (defragment (snd (free 10 \<lparr>buffer = replicate 20 (),
        allocations = [(5, 5), (10, 4)], free_blocks = [(14, 6), (0, 5)]\<rparr>))) =
     free_blocks (defragment (run [Allocate 5, Allocate 5, Free 0] (init 20)))"
proof -
  have h: "allocate 4 (run [Allocate 5, Allocate 5, Free 0] (init 20)) =
     (Inr 10, \<lparr>buffer = replicate 20 (), allocations = [(5, 5), (10, 4)],
               free_blocks = [(14, 6), (0, 5)]\<rparr>)"
    by (simp add: allocate_def free_def init_def search.simps defragment_if_needed_def
        pop_def buffer_size_def Let_def)
  from allocate_free_round_trip [OF refl h] h show ?thesis by blast
qed

end
